theory Spec2Isabelle
  imports Main "HOL-Library.Option_ord"
begin

section \<open>Data model\<close>

text \<open>
  The notebook \<^verbatim>\<open>Codes/On-Shelf_Availability_1.py\<close> works on Spark data frames. A data
  frame is modelled as the list of its rows. Every column of \<^verbatim>\<open>inventory_schema\<close> is
  nullable, \<open>None\<close> being SQL's null: the date, the store and the SKU as well as the
  category and the nine integer measures. Dates are counted in days (an \<^typ>\<open>int\<close>), so
  that \<^verbatim>\<open>(end_date - start_date).days\<close> is a subtraction and
  \<^verbatim>\<open>f.lit(start_date) + f.col('id')\<close> an addition.
\<close>

datatype measure =
    Total_sales_units
  | On_hand_inventory_units
  | Replenishment_units
  | Inventory_pipeline
  | Units_in_transit
  | Units_in_dc
  | Units_on_order
  | Units_under_promotion
  | Shelf_capacity

record store_sku =
  store_id :: "int option"
  sku :: "int option"
  product_category :: "string option"

record observation = store_sku +
  date :: "int option"
  measures :: "measure \<Rightarrow> int option"

record final_row = observation +
  promotion_flag :: int
  replenishment_flag :: int

text \<open>
  The only failure the notebook can raise on its input is Python's \<^verbatim>\<open>TypeError\<close>, when
  the two aggregated dates are null. The two other constructors are the error names of
  the specification; no definition below ever returns them.
\<close>

datatype error = TypeError | EmptyInputError | InvalidFieldClassificationError

definition key :: "'a store_sku_scheme \<Rightarrow> int option \<times> int option" where
  "key r = (store_id r, sku r)"

text \<open>
  Spark fixes neither the order in which an aggregate meets the rows of a table nor the
  order in which a join emits the rows that match one left row: both follow the physical
  placement of the rows and the join strategy. The two orders are parameters of the
  model. A plan is valid when each of them only rearranges the rows it is given: every
  row occurs as often after as before.
\<close>

record plan =
  placement :: "observation list \<Rightarrow> observation list"
  match_order :: "observation list \<Rightarrow> observation list"

definition same_rows :: "'a list \<Rightarrow> 'a list \<Rightarrow> bool" where
  "same_rows xs ys \<longleftrightarrow> (\<forall>x. count_list xs x = count_list ys x)"


text \<open>Two plans: rows are met and emitted in table order, or in the opposite order.\<close>

definition as_met :: plan where
  "as_met = \<lparr> placement = (\<lambda>xs. xs), match_order = (\<lambda>xs. xs) \<rparr>"

definition reversed :: plan where
  "reversed = \<lparr> placement = rev, match_order = rev \<rparr>"

section \<open>Assemble complete set of dates\<close>

text \<open>
  \<^verbatim>\<open>f.min\<close> and \<^verbatim>\<open>f.max\<close> skip nulls: they range over the non-null dates of the table and
  are null when there is none, on the empty table and on a table whose dates are all
  null alike.
\<close>

fun non_null :: "'a option list \<Rightarrow> 'a list" where
  "non_null [] = []"
| "non_null (None # vs) = non_null vs"
| "non_null (Some v # vs) = v # non_null vs"

definition known_dates :: "observation list \<Rightarrow> int list" where
  "known_dates obs = non_null (map date obs)"

fun agg_min :: "int list \<Rightarrow> int option" where
  "agg_min [] = None"
| "agg_min (x # xs) = Some (fold min xs x)"

fun agg_max :: "int list \<Rightarrow> int option" where
  "agg_max [] = None"
| "agg_max (x # xs) = Some (fold max xs x)"

definition start_end :: "observation list \<Rightarrow> int option \<times> int option" where
  "start_end obs = (agg_min (known_dates obs), agg_max (known_dates obs))"

text \<open>
  \<^verbatim>\<open>spark.range((end_date - start_date).days + 1)\<close> gives the ids \<open>0, 1, \<dots>\<close>; each is
  added to \<^verbatim>\<open>start_date\<close>. Subtracting two null dates raises \<^verbatim>\<open>TypeError\<close>. Two Python
  dates are less than four million days apart, so the cast of the id from bigint to
  integer changes nothing and is left out.
\<close>

definition dates :: "observation list \<Rightarrow> error + int list" where
  "dates obs =
     (case start_end obs of
        (Some start_date, Some end_date) \<Rightarrow>
          Inr (map (\<lambda>i. start_date + int i) [0 ..< nat ((end_date - start_date) + 1)])
      | _ \<Rightarrow> Inl TypeError)"

section \<open>Assemble complete set of store-SKUs\<close>

text \<open>
  \<^verbatim>\<open>groupBy('store_id','sku').agg(f.last('product_category'))\<close>: one row per distinct
  pair, a null store or SKU being a value of its own. The category of a pair is that
  of the last of its rows that the aggregate meets, which is decided by the plan
  (\<^verbatim>\<open>f.last\<close> has no ordering of its own, and without \<^verbatim>\<open>ignorenulls\<close> a null category
  is taken as it is). The groups are listed in the order of \<^const>\<open>remdups\<close>.
\<close>

definition store_skus :: "plan \<Rightarrow> observation list \<Rightarrow> store_sku list" where
  "store_skus p obs =
     map (\<lambda>k. \<lparr> store_id = fst k, sku = snd k,
                product_category =
                  product_category (last (filter (\<lambda>r. key r = k) (placement p obs))) \<rparr>)
         (remdups (map key obs))"

section \<open>Generate complete set of inventory records\<close>

definition crossJoin :: "int list \<Rightarrow> store_sku list \<Rightarrow> (int \<times> store_sku) list" where
  "crossJoin ds ks = concat (map (\<lambda>d. map (\<lambda>k. (d, k)) ks) ds)"

text \<open>
  The left outer join on \<^verbatim>\<open>['date','store_id','sku']\<close> against the raw table without
  its \<^verbatim>\<open>product_category\<close>. The join compares with SQL's equality, under which a null
  equals nothing: a raw row with a null date, store or SKU matches no row of the left
  side, and a left row with a null store or SKU is matched by no raw row. A row of the
  left side gives one row per matching raw row, carrying its measures, in the order of
  the plan, and a single row of null measures when nothing matches.
\<close>

definition matching :: "int \<times> store_sku \<Rightarrow> observation list \<Rightarrow> observation list" where
  "matching g obs =
     filter (\<lambda>r. date r = Some (fst g)
               \<and> store_id r \<noteq> None \<and> store_id r = store_id (snd g)
               \<and> sku r \<noteq> None \<and> sku r = sku (snd g)) obs"

definition joined :: "int \<times> store_sku \<Rightarrow> (measure \<Rightarrow> int option) \<Rightarrow> observation" where
  "joined g m = \<lparr> store_id = store_id (snd g), sku = sku (snd g),
                  product_category = product_category (snd g), date = Some (fst g), measures = m \<rparr>"

definition join_rows :: "plan \<Rightarrow> int \<times> store_sku \<Rightarrow> observation list \<Rightarrow> observation list" where
  "join_rows p g obs =
     (case matching g obs of
        [] \<Rightarrow> [joined g (\<lambda>c. None)]
      | ms \<Rightarrow> map (\<lambda>r. joined g (measures r)) (match_order p ms))"

definition join_leftouter :: "plan \<Rightarrow> (int \<times> store_sku) list \<Rightarrow> observation list \<Rightarrow> observation list" where
  "join_leftouter p left obs = concat (map (\<lambda>g. join_rows p g obs) left)"

definition inventory_with_gaps :: "plan \<Rightarrow> observation list \<Rightarrow> error + observation list" where
  "inventory_with_gaps p obs =
     (case dates obs of
        Inl e \<Rightarrow> Inl e
      | Inr ds \<Rightarrow> Inr (join_leftouter p (crossJoin ds (store_skus p obs)) obs))"

section \<open>Impute missing values\<close>

text \<open>
  \<^verbatim>\<open>LAST(c, True) OVER(PARTITION BY store_id, sku ORDER BY date)\<close>. The partition of a
  row is the rows of its store and SKU (null being a value of its own), sorted by date
  (a stable sort; a null date sorts first, as the order on \<^typ>\<open>int option\<close> has it);
  with an \<^verbatim>\<open>ORDER BY\<close> and no frame clause the frame runs from the start of the
  partition to the last row whose date is not after the current row's; \<^verbatim>\<open>LAST\<close> with
  \<^verbatim>\<open>ignorenulls\<close> is the last non-null value of the frame, null when there is none.
\<close>

fun last_ignorenulls :: "int option list \<Rightarrow> int option" where
  "last_ignorenulls [] = None"
| "last_ignorenulls (v # vs) =
     (case last_ignorenulls vs of Some x \<Rightarrow> Some x | None \<Rightarrow> v)"

definition partition_of :: "observation list \<Rightarrow> observation \<Rightarrow> observation list" where
  "partition_of df r = sort_key date (filter (\<lambda>q. store_id q = store_id r \<and> sku q = sku r) df)"

definition frame :: "observation list \<Rightarrow> observation \<Rightarrow> observation list" where
  "frame df r = takeWhile (\<lambda>q. date q \<le> date r) (partition_of df r)"

definition last_over :: "measure \<Rightarrow> observation list \<Rightarrow> observation \<Rightarrow> int option" where
  "last_over c df r = last_ignorenulls (map (\<lambda>q. measures q c) (frame df r))"

definition forward_fill :: "measure \<Rightarrow> observation list \<Rightarrow> observation list" where
  "forward_fill c df = map (\<lambda>r. r\<lparr> measures := (measures r)(c := last_over c df r) \<rparr>) df"

definition fillna :: "int \<Rightarrow> measure list \<Rightarrow> observation list \<Rightarrow> observation list" where
  "fillna v cols df =
     map (\<lambda>r. r\<lparr> measures := (\<lambda>c. if c \<in> set cols \<and> measures r c = None then Some v
                                   else measures r c) \<rparr>) df"

text \<open>
  The cell is a loop over a list of columns followed by one \<^verbatim>\<open>fillna\<close> on a second
  list; the two lists are the literals of the notebook.
\<close>

definition impute :: "measure list \<Rightarrow> measure list \<Rightarrow> observation list \<Rightarrow> observation list" where
  "impute state_cols flow_cols df = fillna 0 flow_cols (fold forward_fill state_cols df)"

definition STATE :: "measure list" where
  "STATE = [Shelf_capacity, On_hand_inventory_units]"

definition FLOW :: "measure list" where
  "FLOW = [Total_sales_units, Units_under_promotion, Units_in_transit, Units_in_dc,
           Units_on_order, Replenishment_units, Inventory_pipeline]"

definition inventory_cleansed :: "observation list \<Rightarrow> observation list" where
  "inventory_cleansed df = impute STATE FLOW df"

section \<open>Calculate inventory flags\<close>

text \<open>\<^verbatim>\<open>CASE WHEN x > 0 THEN 1 ELSE 0 END\<close>: a null \<open>x\<close> makes the test null, hence 0.\<close>

definition case_when_positive :: "int option \<Rightarrow> int" where
  "case_when_positive v = (case v of None \<Rightarrow> 0 | Some x \<Rightarrow> if x > 0 then 1 else 0)"

definition with_flags :: "observation \<Rightarrow> final_row" where
  "with_flags r =
     observation.extend r
       (final_row.fields (case_when_positive (measures r Units_under_promotion))
                         (case_when_positive (measures r Replenishment_units)))"

definition inventory_final :: "observation list \<Rightarrow> final_row list" where
  "inventory_final df = map with_flags df"

section \<open>The whole notebook\<close>

definition pipeline :: "plan \<Rightarrow> observation list \<Rightarrow> error + final_row list" where
  "pipeline p obs =
     (case inventory_with_gaps p obs of
        Inl e \<Rightarrow> Inl e
      | Inr df \<Rightarrow> Inr (inventory_final (inventory_cleansed df)))"

text \<open>A row of the result read again as a row of the raw table: the two flags are dropped.\<close>

definition as_observation :: "final_row \<Rightarrow> observation" where
  "as_observation r = observation.truncate r"

section \<open>Projections of rows and tables\<close>

text \<open>The columns of a row that neither imputation nor flagging writes.\<close>

definition ident :: "'a observation_scheme \<Rightarrow> int option \<times> int option \<times> int option \<times> string option" where
  "ident r = (date r, store_id r, sku r, product_category r)"

text \<open>
  What \<open>last_over\<close> reads of a row: its date, its store and SKU, and the column it
  fills. \<open>carry\<close> is the same window computation on these triples alone.
\<close>

definition cell_of :: "measure \<Rightarrow> observation \<Rightarrow> int option \<times> (int option \<times> int option) \<times> int option" where
  "cell_of c q = (date q, key q, measures q c)"

definition carry ::
  "(int option \<times> (int option \<times> int option) \<times> int option) list
     \<Rightarrow> int option \<times> int option \<Rightarrow> int option \<Rightarrow> int option" where
  "carry ts k d =
     last_ignorenulls (map (\<lambda>t. snd (snd t))
       (sort_key fst (filter (\<lambda>t. fst (snd t) = k \<and> fst t \<le> d) ts)))"

text \<open>The row that imputation makes of a row \<open>q\<close> of a table \<open>df\<close>.\<close>

definition cleanse_row :: "observation list \<Rightarrow> observation \<Rightarrow> observation" where
  "cleanse_row df q =
     q\<lparr> measures := (\<lambda>c. if c \<in> set STATE then carry (map (cell_of c) df) (key q) (date q)
                          else Some (case measures q c of None \<Rightarrow> 0 | Some v \<Rightarrow> v)) \<rparr>"




section \<open>Example tables\<close>

text \<open>
  Store 1, SKU 100, seen on day 1 (50 units on hand, shelf capacity 10) and on day 5
  (30 units on hand, 4 units replenished); nothing in between.
\<close>

definition scenario :: "observation list" where
  "scenario =
     [\<lparr> store_id = Some 1, sku = Some 100, product_category = Some ''dairy'', date = Some 1,
        measures = (\<lambda>c. None)(On_hand_inventory_units := Some 50, Shelf_capacity := Some 10) \<rparr>,
      \<lparr> store_id = Some 1, sku = Some 100, product_category = Some ''dairy'', date = Some 5,
        measures = (\<lambda>c. None)(On_hand_inventory_units := Some 30, Replenishment_units := Some 4) \<rparr>]"

text \<open>The same store and SKU recorded twice on one day.\<close>

definition twice :: "observation list" where
  "twice =
     [\<lparr> store_id = Some 1, sku = Some 100, product_category = Some ''dairy'', date = Some 1,
        measures = (\<lambda>c. None)(On_hand_inventory_units := Some 50) \<rparr>,
      \<lparr> store_id = Some 1, sku = Some 100, product_category = Some ''dairy'', date = Some 1,
        measures = (\<lambda>c. None)(On_hand_inventory_units := Some 50) \<rparr>]"

text \<open>One store and SKU whose row of day 2 comes before its row of day 1 in the table.\<close>

definition late_first :: "observation list" where
  "late_first =
     [\<lparr> store_id = Some 1, sku = Some 100, product_category = Some ''dairy'', date = Some 2,
        measures = (\<lambda>c. None) \<rparr>,
      \<lparr> store_id = Some 1, sku = Some 100, product_category = Some ''snacks'', date = Some 1,
        measures = (\<lambda>c. None) \<rparr>]"

text \<open>A single row without a date.\<close>

definition undated :: "observation list" where
  "undated =
     [\<lparr> store_id = Some 1, sku = Some 100, product_category = Some ''dairy'', date = None,
        measures = (\<lambda>c. None)(On_hand_inventory_units := Some 50) \<rparr>]"


section \<open>The date range\<close>

lemma set_non_null: "set (non_null vs) = {v. Some v \<in> set vs}"
  by (induction vs rule: non_null.induct) auto

lemma set_known_dates: "set (known_dates obs) = {d. \<exists>r\<in>set obs. date r = Some d}"
proof -
  have "Some d \<in> date ` set obs \<longleftrightarrow> (\<exists>r\<in>set obs. date r = Some d)" for d
    by (metis (no_types) imageE image_eqI)
  then show ?thesis by (simp add: known_dates_def set_non_null)
qed

lemma known_dates_nonempty:
  assumes "r \<in> set obs" "date r \<noteq> None"
  shows "known_dates obs \<noteq> []"
proof -
  from assms obtain d where "date r = Some d" by auto
  with assms(1) have "d \<in> set (known_dates obs)" by (auto simp: set_known_dates)
  then show ?thesis by (metis empty_iff list.set(1))
qed


lemma agg_min_Min: "xs \<noteq> [] \<Longrightarrow> agg_min xs = Some (Min (set xs))"
  by (cases xs) (simp_all add: Min.set_eq_fold del: set_simps)

lemma agg_max_Max: "xs \<noteq> [] \<Longrightarrow> agg_max xs = Some (Max (set xs))"
  by (cases xs) (simp_all add: Max.set_eq_fold del: set_simps)

lemma dates_nonempty:
  assumes "known_dates obs \<noteq> []"
  shows "dates obs = Inr (map (\<lambda>i. Min (set (known_dates obs)) + int i)
                      [0 ..< nat (Max (set (known_dates obs)) - Min (set (known_dates obs)) + 1)])"
  using assms by (simp add: dates_def start_end_def agg_min_Min agg_max_Max)

lemma dates_none:
  assumes "known_dates obs = []"
  shows "dates obs = Inl TypeError"
  using assms by (simp add: dates_def start_end_def)

lemma Min_le_Max_dates:
  "known_dates obs \<noteq> [] \<Longrightarrow> Min (set (known_dates obs)) \<le> Max (set (known_dates obs))"
  by (simp add: Min_le_iff)

lemma dates_upto:
  assumes "known_dates obs \<noteq> []"
  shows "dates obs = Inr [Min (set (known_dates obs)) .. Max (set (known_dates obs))]"
proof -
  let ?s = "Min (set (known_dates obs))" and ?e = "Max (set (known_dates obs))"
  have "map (\<lambda>i. ?s + int i) [0 ..< nat (?e - ?s + 1)] = [?s .. ?e]"
    by (rule nth_equalityI) auto
  then show ?thesis using dates_nonempty [OF assms] by simp
qed

lemma scenario_Min_Max:
  "Min (set (known_dates scenario)) = 1" "Max (set (known_dates scenario)) = 5"
  by (simp_all add: scenario_def known_dates_def)

text \<open>
  Claim C5, as the code has it. For a table in which some row has a date, \<open>dates\<close>
  returns the calendar days from the smallest to the largest non-null date of the table,
  both included, in ascending order, each day once and none missing: its \<open>i\<close>-th entry is
  the smallest date plus \<open>i\<close> days, and its length is the difference of the two dates in
  days plus one. A table with rows but no date gives no range.
\<close>

theorem dates_contiguous:
  assumes "r \<in> set obs" and "date r \<noteq> None"
  shows "\<exists>ds. dates obs = Inr ds
             \<and> length ds = nat (Max (set (known_dates obs)) - Min (set (known_dates obs))) + 1
             \<and> (\<forall>i < length ds. ds ! i = Min (set (known_dates obs)) + int i)
             \<and> hd ds = Min (set (known_dates obs))
             \<and> last ds = Max (set (known_dates obs))
             \<and> sorted_wrt (<) ds
             \<and> set ds = {Min (set (known_dates obs)) .. Max (set (known_dates obs))}"
proof -
  let ?s = "Min (set (known_dates obs))" and ?e = "Max (set (known_dates obs))"
  let ?ds = "map (\<lambda>i. ?s + int i) [0 ..< nat (?e - ?s + 1)]"
  have kd: "known_dates obs \<noteq> []" using assms by (rule known_dates_nonempty)
  have le: "?s \<le> ?e" using kd by (rule Min_le_Max_dates)
  have d: "dates obs = Inr ?ds" using kd by (rule dates_nonempty)
  have len: "length ?ds = nat (?e - ?s) + 1" using le by simp
  have nth: "\<forall>i < length ?ds. ?ds ! i = ?s + int i" by simp
  have ne: "?ds \<noteq> []" using le by simp
  have h: "hd ?ds = ?s" using ne nth by (simp add: hd_conv_nth del: length_map nth_map)
  have l: "last ?ds = ?e" using ne le by (simp add: last_conv_nth)
  have s: "sorted_wrt (<) ?ds" by (simp add: sorted_wrt_iff_nth_less)
  have "?ds = [?s .. ?e]" using d dates_upto [OF kd] by simp
  then have st: "set ?ds = {?s .. ?e}" by (simp del: set_map)
  from d len nth h l s st show ?thesis by blast
qed

theorem dates_contiguous_witness:
  "scenario ! 0 \<in> set scenario \<and> date (scenario ! 0) \<noteq> None
   \<and> (\<exists>ds. dates scenario = Inr ds \<and> length ds = 5 \<and> hd ds = 1 \<and> last ds = 5 \<and> set ds = {1 .. 5})"
proof -
  have m: "scenario ! 0 \<in> set scenario" and n: "date (scenario ! 0) \<noteq> None"
    by (simp_all add: scenario_def)
  from dates_contiguous [OF m n] obtain ds where
    "dates scenario = Inr ds"
    "length ds = nat (Max (set (known_dates scenario)) - Min (set (known_dates scenario))) + 1"
    "hd ds = Min (set (known_dates scenario))" "last ds = Max (set (known_dates scenario))"
    "set ds = {Min (set (known_dates scenario)) .. Max (set (known_dates scenario))}"
    by blast
  with m n show ?thesis by (simp add: scenario_Min_Max)
qed

theorem dates_contiguous_counterexample:
  "undated \<noteq> [] \<and> dates undated = Inl TypeError"
  by (simp add: undated_def dates_def start_end_def known_dates_def)

section \<open>The empty table\<close>

text \<open>
  Claim C8, as the code has it. On a table without rows both aggregated dates are null,
  their subtraction raises \<^verbatim>\<open>TypeError\<close> while the date range is assembled, and neither
  the grid nor the final table is produced, whatever the plan. The failure is Python's
  \<^verbatim>\<open>TypeError\<close>, not an \<^verbatim>\<open>EmptyInputError\<close>.
\<close>

theorem pipeline_empty:
  "pipeline p [] = Inl TypeError \<and> inventory_with_gaps p [] = Inl TypeError \<and> dates [] = Inl TypeError"
  by (simp add: pipeline_def inventory_with_gaps_def dates_def start_end_def known_dates_def)

theorem pipeline_empty_counterexample: "pipeline as_met [] \<noteq> Inl EmptyInputError"
  by (simp add: pipeline_def inventory_with_gaps_def dates_def start_end_def known_dates_def)

section \<open>Row-wise facts about imputation and flags\<close>

lemma same_rows_refl [simp]: "same_rows xs xs"
  by (simp add: same_rows_def)

lemma same_rows_rev [simp]: "same_rows (rev xs) xs"
  by (induction xs) (simp_all add: same_rows_def)

lemma same_rows_set:
  assumes "same_rows xs ys"
  shows "set xs = set ys"
proof -
  have "x \<in> set xs \<longleftrightarrow> x \<in> set ys" for x
    using assms count_list_0_iff [of xs x] count_list_0_iff [of ys x]
    by (simp add: same_rows_def)
  then show ?thesis by blast
qed

lemma same_rows_length:
  assumes "same_rows xs ys"
  shows "length xs = length ys"
proof -
  have "length xs = sum (count_list xs) (set xs)" by (simp add: sum_count_set)
  also have "\<dots> = sum (count_list ys) (set ys)"
    using assms same_rows_set [OF assms] by (simp add: same_rows_def)
  also have "\<dots> = length ys" by (simp add: sum_count_set)
  finally show ?thesis .
qed

lemma same_rows_Nil: "same_rows xs ys \<Longrightarrow> xs = [] \<longleftrightarrow> ys = []"
  using same_rows_length [of xs ys] by auto




lemma length_forward_fill [simp]: "length (forward_fill c df) = length df"
  by (simp add: forward_fill_def)

lemma length_fold_forward_fill [simp]: "length (fold forward_fill cs df) = length df"
  by (induction cs arbitrary: df) simp_all

lemma length_fillna [simp]: "length (fillna v cols df) = length df"
  by (simp add: fillna_def)

lemma length_impute [simp]: "length (impute st fl df) = length df"
  by (simp add: impute_def)

lemma length_inventory_cleansed [simp]: "length (inventory_cleansed df) = length df"
  by (simp add: inventory_cleansed_def)

lemma nth_forward_fill:
  "i < length df \<Longrightarrow>
     forward_fill c df ! i = (df ! i)\<lparr> measures := (measures (df ! i))(c := last_over c df (df ! i)) \<rparr>"
  by (simp add: forward_fill_def)

lemma measures_fold_forward_fill_other:
  "c \<notin> set cs \<Longrightarrow> i < length df \<Longrightarrow> measures (fold forward_fill cs df ! i) c = measures (df ! i) c"
  by (induction cs arbitrary: df) (auto simp: nth_forward_fill)

lemma measures_fillna:
  "i < length df \<Longrightarrow> measures (fillna v cols df ! i) c =
     (if c \<in> set cols \<and> measures (df ! i) c = None then Some v else measures (df ! i) c)"
  by (simp add: fillna_def)

lemma measures_with_flags [simp]: "measures (with_flags r) = measures r"
  by (simp add: with_flags_def observation.defs)

lemma length_inventory_final [simp]: "length (inventory_final df) = length df"
  by (simp add: inventory_final_def)

lemma as_observation_with_flags [simp]: "as_observation (with_flags r) = r"
  by (simp add: as_observation_def with_flags_def observation.defs)


lemma pipeline_dated:
  assumes "known_dates obs \<noteq> []"
  shows "pipeline p obs =
           Inr (inventory_final (inventory_cleansed
             (join_leftouter p (crossJoin [Min (set (known_dates obs)) .. Max (set (known_dates obs))]
                                  (store_skus p obs)) obs)))"
  using dates_upto [OF assms] by (simp add: pipeline_def inventory_with_gaps_def)

lemma pipeline_undated:
  assumes "known_dates obs = []"
  shows "pipeline p obs = Inl TypeError"
  using dates_none [OF assms] by (simp add: pipeline_def inventory_with_gaps_def)

lemma pipeline_rows:
  assumes "pipeline p obs = Inr out"
  shows "\<exists>df. inventory_with_gaps p obs = Inr df \<and> out = inventory_final (inventory_cleansed df)"
  using assms by (auto simp: pipeline_def split: sum.splits)

lemma pipeline_Inr_dated:
  assumes "pipeline p obs = Inr out"
  shows "known_dates obs \<noteq> []"
  using assms pipeline_undated [of obs p] by auto

lemma flow_nonnull_impute:
  assumes "r \<in> set (impute st fl df)" "c \<in> set fl"
  shows "measures r c \<noteq> None"
proof -
  from assms(1) obtain i where i: "i < length df" "r = impute st fl df ! i"
    by (metis in_set_conv_nth length_impute)
  then show ?thesis using assms(2) by (simp add: impute_def measures_fillna)
qed


lemma scenario_dated: "known_dates scenario \<noteq> []"
  by (simp add: scenario_def known_dates_def)

lemma scenario_pipeline_Inr: "pipeline as_met scenario = Inr (projr (pipeline as_met scenario))"
  using pipeline_dated [OF scenario_dated, of as_met] by simp

section \<open>Zero-fill of the flow columns\<close>

text \<open>
  Claim C3. Imputation and flagging keep the number of rows, and in row \<open>i\<close> of the result
  every flow column (one of the seven columns given to \<^verbatim>\<open>fillna\<close>) holds a value: the
  value row \<open>i\<close> had before when it was not null, and 0 when it was null. Nothing but
  the row's own value enters: neither its store and SKU nor its date.
\<close>

theorem flow_fields_zero_filled:
  assumes "c \<in> set FLOW" and "i < length df"
  shows "length (inventory_final (inventory_cleansed df)) = length df
       \<and> measures (inventory_final (inventory_cleansed df) ! i) c =
           Some (case measures (df ! i) c of None \<Rightarrow> 0 | Some v \<Rightarrow> v)"
proof -
  have "c \<notin> set STATE" using assms(1) by (auto simp: FLOW_def STATE_def)
  then have "measures (fold forward_fill STATE df ! i) c = measures (df ! i) c"
    using assms(2) by (rule measures_fold_forward_fill_other)
  then show ?thesis using assms
    by (simp add: inventory_cleansed_def impute_def inventory_final_def measures_fillna
             split: option.splits)
qed

theorem flow_fields_zero_filled_witness:
  "Units_in_dc \<in> set FLOW \<and> (1::nat) < length scenario
   \<and> measures (scenario ! 1) Units_in_dc = None
   \<and> measures (inventory_final (inventory_cleansed scenario) ! 1) Units_in_dc = Some 0"
proof -
  have a: "Units_in_dc \<in> set FLOW" by (simp add: FLOW_def)
  have b: "(1::nat) < length scenario" by (simp add: scenario_def)
  have c: "measures (scenario ! 1) Units_in_dc = None" by (simp add: scenario_def)
  from flow_fields_zero_filled [OF a b] a b c show ?thesis by simp
qed

section \<open>Inventory flags\<close>

text \<open>
  Claim C6. In every row of the result, whatever the plan, the two columns read by the
  flags hold a value; \<^verbatim>\<open>promotion_flag\<close> is 1 when \<^verbatim>\<open>units_under_promotion\<close> is positive
  and 0 otherwise, \<^verbatim>\<open>replenishment_flag\<close> is 1 when \<^verbatim>\<open>replenishment_units\<close> is positive
  and 0 otherwise (the flags are the integers 1 and 0 of the \<^verbatim>\<open>CASE\<close> expression). The
  flagged row is a function of the row alone: it is \<open>with_flags\<close> of its own columns.
\<close>

theorem flags_row_local:
  assumes "pipeline p obs = Inr out" and "r \<in> set out"
  shows "\<exists>u v. measures r Units_under_promotion = Some u \<and> measures r Replenishment_units = Some v
           \<and> (promotion_flag r = 1 \<longleftrightarrow> u > 0) \<and> (promotion_flag r = 0 \<longleftrightarrow> \<not> u > 0)
           \<and> (replenishment_flag r = 1 \<longleftrightarrow> v > 0) \<and> (replenishment_flag r = 0 \<longleftrightarrow> \<not> v > 0)
           \<and> r = with_flags (as_observation r)"
proof -
  from pipeline_rows [OF assms(1)] obtain df where out: "out = inventory_final (impute STATE FLOW df)"
    by (auto simp: inventory_cleansed_def)
  with assms(2) obtain q where q: "q \<in> set (impute STATE FLOW df)" "r = with_flags q"
    by (auto simp: inventory_final_def)
  have "measures q Units_under_promotion \<noteq> None" "measures q Replenishment_units \<noteq> None"
    using flow_nonnull_impute [OF q(1)] by (simp_all add: FLOW_def)
  then obtain u v where uv:
    "measures q Units_under_promotion = Some u" "measures q Replenishment_units = Some v"
    by auto
  have "promotion_flag r = (if u > 0 then 1 else 0)" "replenishment_flag r = (if v > 0 then 1 else 0)"
    using q(2) uv
    by (simp_all add: with_flags_def observation.defs final_row.defs case_when_positive_def)
  then show ?thesis using q(2) uv by simp
qed

theorem flags_row_local_witness:
  "pipeline as_met scenario = Inr (projr (pipeline as_met scenario))
   \<and> last (projr (pipeline as_met scenario)) \<in> set (projr (pipeline as_met scenario))
   \<and> measures (last (projr (pipeline as_met scenario))) Replenishment_units = Some 4
   \<and> replenishment_flag (last (projr (pipeline as_met scenario))) = 1
   \<and> promotion_flag (last (projr (pipeline as_met scenario))) = 0"
proof -
  let ?out = "projr (pipeline as_met scenario)"
  have len: "length ?out = 5" by code_simp
  then have mem: "last ?out \<in> set ?out" by (intro last_in_set) auto
  have v: "measures (last ?out) Replenishment_units = Some 4"
          "measures (last ?out) Units_under_promotion = Some 0" by code_simp+
  from flags_row_local [OF scenario_pipeline_Inr mem] v scenario_pipeline_Inr mem
  show ?thesis by auto
qed

section \<open>The classification of the measure columns\<close>



section \<open>The window of the forward fill\<close>

lemma takeWhile_sorted_filter:
  "sorted (map f xs) \<Longrightarrow> takeWhile (\<lambda>q. f q \<le> d) xs = filter (\<lambda>q. f q \<le> (d::'a::linorder)) xs"
proof (induction xs)
  case Nil
  then show ?case by simp
next
  case (Cons x xs)
  show ?case
  proof (cases "f x \<le> d")
    case True
    then show ?thesis using Cons by simp
  next
    case False
    then have "\<forall>y\<in>set xs. \<not> f y \<le> d" using Cons.prems by auto
    then have "filter (\<lambda>q. f q \<le> d) xs = []" by (simp add: filter_empty_conv)
    then show ?thesis using False by simp
  qed
qed

lemma insort_key_map: "insort_key f (g x) (map g xs) = map g (insort_key (\<lambda>a. f (g a)) x xs)"
  by (induction xs) simp_all

lemma sort_key_map: "sort_key f (map g xs) = map g (sort_key (\<lambda>a. f (g a)) xs)"
  by (induction xs) (simp_all add: insort_key_map)

lemma frame_filter:
  "frame df r = sort_key date (filter (\<lambda>q. key q = key r \<and> date q \<le> date r) df)"
proof -
  have "frame df r = filter (\<lambda>q. date q \<le> date r) (partition_of df r)"
    unfolding frame_def partition_of_def by (rule takeWhile_sorted_filter) simp
  then show ?thesis by (simp add: partition_of_def filter_sort key_def)
qed

lemma last_over_carry: "last_over c df r = carry (map (cell_of c) df) (key r) (date r)"
proof -
  let ?P = "\<lambda>t::int option \<times> (int option \<times> int option) \<times> int option. fst (snd t) = key r \<and> fst t \<le> date r"
  have f: "filter ?P (map (cell_of c) df) = map (cell_of c) (filter (\<lambda>q. key q = key r \<and> date q \<le> date r) df)"
    by (simp add: filter_map comp_def cell_of_def)
  have g: "(\<lambda>q. fst (cell_of c q)) = date" by (simp add: fun_eq_iff cell_of_def)
  have "carry (map (cell_of c) df) (key r) (date r)
          = last_ignorenulls (map (\<lambda>t. snd (snd t)) (map (cell_of c) (frame df r)))"
    unfolding carry_def f sort_key_map g frame_filter ..
  also have "\<dots> = last_over c df r" by (simp add: last_over_def comp_def cell_of_def)
  finally show ?thesis by simp
qed

lemma last_ignorenulls_None: "last_ignorenulls vs = None \<longleftrightarrow> (\<forall>v\<in>set vs. v = None)"
  by (induction vs) (auto split: option.splits)

lemma last_ignorenulls_Some:
  "last_ignorenulls vs = Some x \<Longrightarrow> \<exists>as bs. vs = as @ Some x # bs \<and> (\<forall>v\<in>set bs. v = None)"
proof (induction vs)
  case Nil
  then show ?case by simp
next
  case (Cons v vs)
  show ?case
  proof (cases "last_ignorenulls vs")
    case None
    then have "v = Some x" using Cons.prems by simp
    moreover have "\<forall>w\<in>set vs. w = None" using None by (simp add: last_ignorenulls_None)
    ultimately have "v # vs = [] @ Some x # vs \<and> (\<forall>w\<in>set vs. w = None)" by simp
    then show ?thesis by blast
  next
    case (Some y)
    then have "last_ignorenulls vs = Some x" using Cons.prems by simp
    from Cons.IH [OF this] obtain as bs where "vs = as @ Some x # bs" "\<forall>v\<in>set bs. v = None" by blast
    then have "v # vs = (v # as) @ Some x # bs \<and> (\<forall>v\<in>set bs. v = None)" by simp
    then show ?thesis by blast
  qed
qed

lemma last_ignorenulls_snoc:
  "last_ignorenulls (vs @ [w]) = (case w of Some x \<Rightarrow> Some x | None \<Rightarrow> last_ignorenulls vs)"
  by (induction vs) (auto split: option.splits)

lemma carry_None:
  "carry ts k d = None \<longleftrightarrow> (\<forall>t\<in>set ts. fst (snd t) = k \<and> fst t \<le> d \<longrightarrow> snd (snd t) = None)"
  by (auto simp: carry_def last_ignorenulls_None)

lemma carry_Some:
  assumes "carry ts k d = Some x"
  shows "\<exists>t\<in>set ts. fst (snd t) = k \<and> fst t \<le> d \<and> snd (snd t) = Some x
           \<and> (\<forall>t'\<in>set ts. fst (snd t') = k \<and> fst t < fst t' \<and> fst t' \<le> d \<longrightarrow> snd (snd t') = None)"
proof -
  let ?S = "sort_key fst (filter (\<lambda>t. fst (snd t) = k \<and> fst t \<le> d) ts)"
  from assms have "last_ignorenulls (map (\<lambda>t. snd (snd t)) ?S) = Some x" by (simp add: carry_def)
  from last_ignorenulls_Some [OF this] obtain as bs where
    ab: "map (\<lambda>t. snd (snd t)) ?S = as @ Some x # bs" "\<forall>v\<in>set bs. v = None" by blast
  then obtain S1 t S2 where S: "?S = S1 @ t # S2" "snd (snd t) = Some x" "map (\<lambda>t. snd (snd t)) S2 = bs"
    by (auto simp: map_eq_append_conv map_eq_Cons_conv)
  have srt: "sorted (map fst (S1 @ t # S2))" using sorted_sort_key [of fst "filter (\<lambda>t. fst (snd t) = k \<and> fst t \<le> d) ts"]
    by (simp only: S(1))
  have tin: "t \<in> set ?S" by (simp only: S(1)) simp
  then have t: "t \<in> set ts" "fst (snd t) = k" "fst t \<le> d" by auto
  have later: "snd (snd t') = None"
    if t': "t' \<in> set ts" "fst (snd t') = k" "fst t < fst t'" "fst t' \<le> d" for t'
  proof -
    have "t' \<in> set ?S" using t'(1,2,4) by simp
    then have "t' \<in> set S1 \<or> t' = t \<or> t' \<in> set S2" by (simp only: S(1)) auto
    moreover have "t' \<notin> set S1" using srt t'(3) by (auto simp: sorted_append)
    moreover have "t' \<noteq> t" using t'(3) by auto
    ultimately have "t' \<in> set S2" by blast
    then have "snd (snd t') \<in> set bs" using S(3) by auto
    then show ?thesis using ab(2) by simp
  qed
  from t S(2) later show ?thesis by blast
qed

lemma carry_partition: "carry (filter (\<lambda>t. fst (snd t) = k) ts) k d = carry ts k d"
proof -
  have "(\<lambda>t::int option \<times> (int option \<times> int option) \<times> int option. fst (snd t) = k \<and> fst (snd t) = k \<and> fst t \<le> d)
          = (\<lambda>t. fst (snd t) = k \<and> fst t \<le> d)" by auto
  then show ?thesis by (simp add: carry_def)
qed

section \<open>The forward-filled columns\<close>

lemma cell_of_forward_fill_other:
  "c \<noteq> c' \<Longrightarrow> map (cell_of c) (forward_fill c' df) = map (cell_of c) df"
  by (simp add: forward_fill_def cell_of_def key_def)

lemma cell_of_forward_fill_same:
  "map (cell_of c) (forward_fill c df)
     = map (\<lambda>t. (fst t, fst (snd t), carry (map (cell_of c) df) (fst (snd t)) (fst t))) (map (cell_of c) df)"
  by (simp add: forward_fill_def cell_of_def key_def last_over_carry)

lemma cell_of_fillna_other:
  "c \<notin> set cols \<Longrightarrow> map (cell_of c) (fillna v cols df) = map (cell_of c) df"
  by (simp add: fillna_def cell_of_def key_def)

lemma inventory_cleansed_unfold:
  "inventory_cleansed df
     = fillna 0 FLOW (forward_fill On_hand_inventory_units (forward_fill Shelf_capacity df))"
  by (simp add: inventory_cleansed_def impute_def STATE_def)

lemma cell_of_cleansed_shelf:
  "map (cell_of Shelf_capacity) (inventory_cleansed df)
     = map (cell_of Shelf_capacity) (forward_fill Shelf_capacity df)"
proof -
  have nf: "Shelf_capacity \<notin> set FLOW" by (simp add: FLOW_def)
  have ne: "Shelf_capacity \<noteq> On_hand_inventory_units" by simp
  show ?thesis
    unfolding inventory_cleansed_unfold cell_of_fillna_other [OF nf] cell_of_forward_fill_other [OF ne] ..
qed

lemma cell_of_cleansed_on_hand:
  "map (cell_of On_hand_inventory_units) (inventory_cleansed df)
     = map (cell_of On_hand_inventory_units) (forward_fill On_hand_inventory_units (forward_fill Shelf_capacity df))"
proof -
  have nf: "On_hand_inventory_units \<notin> set FLOW" by (simp add: FLOW_def)
  show ?thesis unfolding inventory_cleansed_unfold cell_of_fillna_other [OF nf] ..
qed

lemma cell_of_inventory_cleansed:
  assumes "c \<in> set STATE"
  shows "map (cell_of c) (inventory_cleansed df)
     = map (\<lambda>t. (fst t, fst (snd t), carry (map (cell_of c) df) (fst (snd t)) (fst t))) (map (cell_of c) df)"
proof -
  from assms have "c = Shelf_capacity \<or> c = On_hand_inventory_units" by (simp add: STATE_def)
  then show ?thesis
  proof
    assume c: "c = Shelf_capacity"
    show ?thesis unfolding c cell_of_cleansed_shelf by (rule cell_of_forward_fill_same)
  next
    assume c: "c = On_hand_inventory_units"
    have ne: "On_hand_inventory_units \<noteq> Shelf_capacity" by simp
    show ?thesis
      unfolding c cell_of_cleansed_on_hand cell_of_forward_fill_same [of _ "forward_fill Shelf_capacity df"]
        cell_of_forward_fill_other [OF ne] ..
  qed
qed

lemma cleansed_state_value:
  assumes "c \<in> set STATE" "i < length df"
  shows "measures (inventory_cleansed df ! i) c = carry (map (cell_of c) df) (key (df ! i)) (date (df ! i))"
proof -
  have "cell_of c (inventory_cleansed df ! i) = map (cell_of c) (inventory_cleansed df) ! i"
    using assms(2) by simp
  also have "\<dots> = (date (df ! i), key (df ! i), carry (map (cell_of c) df) (key (df ! i)) (date (df ! i)))"
    using assms(2) by (simp add: cell_of_inventory_cleansed [OF assms(1)] cell_of_def)
  finally show ?thesis by (simp add: cell_of_def)
qed

lemma carry_rows_None:
  "carry (map (cell_of c) df) k d = None
     \<longleftrightarrow> (\<forall>q\<in>set df. key q = k \<and> date q \<le> d \<longrightarrow> measures q c = None)"
  by (auto simp: carry_None cell_of_def)

lemma carry_rows_Some:
  assumes "carry (map (cell_of c) df) k d = Some x"
  shows "\<exists>q\<in>set df. key q = k \<and> date q \<le> d \<and> measures q c = Some x
           \<and> (\<forall>q'\<in>set df. key q' = k \<and> date q < date q' \<and> date q' \<le> d \<longrightarrow> measures q' c = None)"
proof -
  from carry_Some [OF assms] obtain t where
    t: "t \<in> set (map (cell_of c) df)" "fst (snd t) = k" "fst t \<le> d" "snd (snd t) = Some x"
    and later: "\<forall>t'\<in>set (map (cell_of c) df). fst (snd t') = k \<and> fst t < fst t' \<and> fst t' \<le> d \<longrightarrow> snd (snd t') = None"
    by blast
  from t(1) obtain q where q: "q \<in> set df" "t = cell_of c q" by auto
  have "\<forall>q'\<in>set df. key q' = k \<and> date q < date q' \<and> date q' \<le> d \<longrightarrow> measures q' c = None"
  proof (intro ballI impI)
    fix q' assume a: "q' \<in> set df" "key q' = k \<and> date q < date q' \<and> date q' \<le> d"
    have "cell_of c q' \<in> set (map (cell_of c) df)" using a(1) by simp
    with later a(2) q(2) show "measures q' c = None" by (auto simp: cell_of_def)
  qed
  with q t(2,3,4) show ?thesis by (auto simp: cell_of_def)
qed

lemma carry_rows_partition:
  "carry (map (cell_of c) (filter (\<lambda>q. key q = k) df)) k d = carry (map (cell_of c) df) k d"
proof -
  have "map (cell_of c) (filter (\<lambda>q. key q = k) df) = filter (\<lambda>t. fst (snd t) = k) (map (cell_of c) df)"
    by (simp add: filter_map comp_def cell_of_def)
  then show ?thesis by (simp only: carry_partition)
qed

section \<open>Carry-forward of the state columns\<close>

text \<open>
  Claim C1. Let \<open>c\<close> be one of the two forward-filled columns and \<open>r\<close> the row at
  position \<open>i\<close> of a table. After imputation the value of \<open>c\<close> in that row is null
  exactly when \<open>c\<close> is null in every row of \<open>r\<close>'s store and SKU dated on or before
  \<open>r\<close>'s date. Otherwise it is the value \<open>c\<close> has in a row of the same store and SKU
  dated on or before \<open>r\<close>'s date, such that \<open>c\<close> is null in every row of that store and
  SKU dated after that row and not after \<open>r\<close>; in particular a value that all rows of
  \<open>r\<close>'s store, SKU and date agree on is kept. Rows of other stores or SKUs play no
  part: any table with the same rows for \<open>r\<close>'s store and SKU gives \<open>r\<close> the same value.
  (A null store or SKU is a value of its own for the partition, and a null date comes
  before every date; in the grid of the notebook no date is null.)
\<close>

theorem state_fields_carried_forward:
  assumes "c \<in> set STATE" and "i < length df"
  shows "(measures (inventory_cleansed df ! i) c = None \<longleftrightarrow>
            (\<forall>q\<in>set df. key q = key (df ! i) \<and> date q \<le> date (df ! i) \<longrightarrow> measures q c = None))
       \<and> (\<forall>x. measures (inventory_cleansed df ! i) c = Some x \<longrightarrow>
            (\<exists>q\<in>set df. key q = key (df ! i) \<and> date q \<le> date (df ! i) \<and> measures q c = Some x
               \<and> (\<forall>q'\<in>set df. key q' = key (df ! i) \<and> date q < date q' \<and> date q' \<le> date (df ! i)
                      \<longrightarrow> measures q' c = None)))
       \<and> (\<forall>y. (\<forall>q\<in>set df. key q = key (df ! i) \<and> date q = date (df ! i) \<longrightarrow> measures q c = Some y)
              \<longrightarrow> measures (inventory_cleansed df ! i) c = Some y)
       \<and> (\<forall>df' j. j < length df' \<and> df' ! j = df ! i
                \<and> filter (\<lambda>q. key q = key (df ! i)) df' = filter (\<lambda>q. key q = key (df ! i)) df
              \<longrightarrow> measures (inventory_cleansed df' ! j) c = measures (inventory_cleansed df ! i) c)"
proof -
  let ?r = "df ! i"
  let ?v = "measures (inventory_cleansed df ! i) c"
  have v: "?v = carry (map (cell_of c) df) (key ?r) (date ?r)"
    using assms by (rule cleansed_state_value)
  have none: "?v = None \<longleftrightarrow>
      (\<forall>q\<in>set df. key q = key ?r \<and> date q \<le> date ?r \<longrightarrow> measures q c = None)"
    unfolding v by (rule carry_rows_None)
  have some: "\<forall>x. ?v = Some x \<longrightarrow>
      (\<exists>q\<in>set df. key q = key ?r \<and> date q \<le> date ?r \<and> measures q c = Some x
         \<and> (\<forall>q'\<in>set df. key q' = key ?r \<and> date q < date q' \<and> date q' \<le> date ?r \<longrightarrow> measures q' c = None))"
    unfolding v using carry_rows_Some by blast
  have r: "?r \<in> set df" using assms(2) by simp
  have keep: "?v = Some y"
    if peers: "\<forall>q\<in>set df. key q = key ?r \<and> date q = date ?r \<longrightarrow> measures q c = Some y" for y
  proof -
    have ry: "measures ?r c = Some y" using peers r by simp
    then have "?v \<noteq> None" using none r by auto
    then obtain x where x: "?v = Some x" by auto
    with some obtain q where q: "q \<in> set df" "key q = key ?r" "date q \<le> date ?r" "measures q c = Some x"
      and later: "\<forall>q'\<in>set df. key q' = key ?r \<and> date q < date q' \<and> date q' \<le> date ?r \<longrightarrow> measures q' c = None"
      by blast
    have "\<not> date q < date ?r" using later r ry by auto
    then have "date q = date ?r" using q(3) by simp
    then have "measures q c = Some y" using peers q(1,2) by simp
    then show ?thesis using q(4) x by simp
  qed
  have loc: "measures (inventory_cleansed df' ! j) c = ?v"
    if h: "j < length df' \<and> df' ! j = ?r
           \<and> filter (\<lambda>q. key q = key ?r) df' = filter (\<lambda>q. key q = key ?r) df" for df' j
  proof -
    have "measures (inventory_cleansed df' ! j) c = carry (map (cell_of c) df') (key ?r) (date ?r)"
      using cleansed_state_value [OF assms(1), of j df'] h by simp
    also have "\<dots> = carry (map (cell_of c) (filter (\<lambda>q. key q = key ?r) df')) (key ?r) (date ?r)"
      by (simp only: carry_rows_partition)
    also have "\<dots> = carry (map (cell_of c) (filter (\<lambda>q. key q = key ?r) df)) (key ?r) (date ?r)"
      using h by simp
    also have "\<dots> = ?v" unfolding v by (simp only: carry_rows_partition)
    finally show ?thesis .
  qed
  from none some keep loc show ?thesis by blast
qed

theorem state_fields_carried_forward_witness:
  "On_hand_inventory_units \<in> set STATE
   \<and> 2 < length (projr (inventory_with_gaps as_met scenario))
   \<and> date (projr (inventory_with_gaps as_met scenario) ! 2) = Some 3
   \<and> measures (projr (inventory_with_gaps as_met scenario) ! 2) On_hand_inventory_units = None
   \<and> measures (inventory_cleansed (projr (inventory_with_gaps as_met scenario)) ! 2) On_hand_inventory_units \<noteq> None
   \<and> measures (inventory_cleansed (projr (inventory_with_gaps as_met scenario)) ! 2) On_hand_inventory_units = Some 50"
proof -
  let ?G = "projr (inventory_with_gaps as_met scenario)"
  have a: "On_hand_inventory_units \<in> set STATE" by (simp add: STATE_def)
  have b: "2 < length ?G" by code_simp
  have e: "date (?G ! 2) = Some 3" "measures (?G ! 2) On_hand_inventory_units = None"
    "measures (inventory_cleansed ?G ! 2) On_hand_inventory_units = Some 50" by code_simp+
  have r0: "key (?G ! 0) = key (?G ! 2)" "date (?G ! 0) \<le> date (?G ! 2)"
    "measures (?G ! 0) On_hand_inventory_units \<noteq> None" by code_simp+
  have "0 < length ?G" using b by linarith
  then have m0: "?G ! 0 \<in> set ?G" by (rule nth_mem)
  from state_fields_carried_forward [OF a b]
  have "measures (inventory_cleansed ?G ! 2) On_hand_inventory_units = None \<longleftrightarrow>
          (\<forall>q\<in>set ?G. key q = key (?G ! 2) \<and> date q \<le> date (?G ! 2)
              \<longrightarrow> measures q On_hand_inventory_units = None)"
    by blast
  with r0 m0 have "measures (inventory_cleansed ?G ! 2) On_hand_inventory_units \<noteq> None" by metis
  with a b e show ?thesis by simp
qed

section \<open>Filling a filled column again\<close>

lemma sorted_map_le_last:
  assumes "sorted (map f xs)" "x \<in> set xs"
  shows "f x \<le> f (last xs)"
proof -
  from assms(2) have ne: "xs \<noteq> []" by auto
  from assms(2) obtain as bs where "xs = as @ x # bs" by (auto simp: in_set_conv_decomp)
  then show ?thesis using assms(1) by (cases bs rule: rev_cases) (auto simp: sorted_append)
qed

lemma carry_idem:
  assumes "t \<in> set ts"
  shows "carry (map (\<lambda>t. (fst t, fst (snd t), carry ts (fst (snd t)) (fst t))) ts) (fst (snd t)) (fst t)
           = carry ts (fst (snd t)) (fst t)"
proof -
  let ?k = "fst (snd t)" and ?d = "fst t"
  let ?upd = "\<lambda>t::int option \<times> (int option \<times> int option) \<times> int option. (fst t, fst (snd t), carry ts (fst (snd t)) (fst t))"
  let ?P = "\<lambda>t::int option \<times> (int option \<times> int option) \<times> int option. fst (snd t) = ?k \<and> fst t \<le> ?d"
  let ?S = "sort_key fst (filter ?P ts)"
  have f: "filter ?P (map ?upd ts) = map ?upd (filter ?P ts)"
    by (simp add: filter_map comp_def)
  have s: "sort_key fst (map ?upd (filter ?P ts)) = map ?upd ?S"
    by (simp add: sort_key_map)
  have "carry (map ?upd ts) ?k ?d
          = last_ignorenulls (map (\<lambda>t. snd (snd t)) (sort_key fst (filter ?P (map ?upd ts))))"
    by (rule carry_def)
  also have "\<dots> = last_ignorenulls (map (\<lambda>t. snd (snd t)) (map ?upd ?S))"
    by (simp only: f s)
  also have "\<dots> = last_ignorenulls (map (\<lambda>u. carry ts ?k (fst u)) ?S)"
    by (auto simp: comp_def intro!: arg_cong [where f = last_ignorenulls])
  finally have lhs: "carry (map ?upd ts) ?k ?d = last_ignorenulls (map (\<lambda>u. carry ts ?k (fst u)) ?S)" .
  show ?thesis
  proof (cases "carry ts ?k ?d")
    case None
    have "carry ts ?k (fst u) = None" if "u \<in> set ?S" for u
    proof -
      from that have "fst u \<le> ?d" by simp
      then show ?thesis using None unfolding carry_None by auto
    qed
    then have "last_ignorenulls (map (\<lambda>u. carry ts ?k (fst u)) ?S) = None"
      by (simp add: last_ignorenulls_None)
    then show ?thesis using lhs None by simp
  next
    case (Some x)
    have tin: "t \<in> set ?S" using assms by simp
    then have ne: "?S \<noteq> []" by (metis empty_iff list.set(1))
    have "fst t \<le> fst (last ?S)" using tin by (intro sorted_map_le_last) simp_all
    moreover have "last ?S \<in> set ?S" using ne by (rule last_in_set)
    then have "fst (last ?S) \<le> ?d" by simp
    ultimately have dl: "fst (last ?S) = ?d" by simp
    have "map (\<lambda>u. carry ts ?k (fst u)) ?S
            = map (\<lambda>u. carry ts ?k (fst u)) (butlast ?S) @ [carry ts ?k (fst (last ?S))]"
      using ne by (metis (no_types, lifting) append_butlast_last_id list.simps(8,9) map_append)
    then have "last_ignorenulls (map (\<lambda>u. carry ts ?k (fst u)) ?S) = Some x"
      using Some dl by (simp add: last_ignorenulls_snoc)
    then show ?thesis using lhs Some by simp
  qed
qed

section \<open>Imputing an imputed table\<close>

lemma forward_fill_fixpoint:
  assumes "\<And>r. r \<in> set df \<Longrightarrow> last_over c df r = measures r c"
  shows "forward_fill c df = df"
  unfolding forward_fill_def by (rule map_idI) (simp add: assms)

lemma fillna_fixpoint:
  assumes "\<And>r c. r \<in> set df \<Longrightarrow> c \<in> set cols \<Longrightarrow> measures r c \<noteq> None"
  shows "fillna v cols df = df"
proof -
  have "(\<lambda>c. if c \<in> set cols \<and> measures r c = None then Some v else measures r c) = measures r"
    if "r \<in> set df" for r
    using assms [OF that] by (auto simp: fun_eq_iff)
  then show ?thesis unfolding fillna_def by (intro map_idI) simp
qed

lemma last_over_cleansed:
  assumes "c \<in> set STATE" "r \<in> set (inventory_cleansed df)"
  shows "last_over c (inventory_cleansed df) r = measures r c"
proof -
  let ?ts = "map (cell_of c) df"
  let ?upd = "\<lambda>t::int option \<times> (int option \<times> int option) \<times> int option. (fst t, fst (snd t), carry ?ts (fst (snd t)) (fst t))"
  from assms(2) obtain i where i: "i < length df" "r = inventory_cleansed df ! i"
    by (metis in_set_conv_nth length_inventory_cleansed)
  have "cell_of c r = map (cell_of c) (inventory_cleansed df) ! i" using i by simp
  also have "\<dots> = ?upd (?ts ! i)"
    using i(1) by (simp only: cell_of_inventory_cleansed [OF assms(1)]) simp
  finally have r: "cell_of c r = ?upd (?ts ! i)" .
  have t: "?ts ! i \<in> set ?ts" using i(1) by (intro nth_mem) simp
  have kd: "key r = fst (snd (?ts ! i))" "date r = fst (?ts ! i)"
    and val: "measures r c = carry ?ts (fst (snd (?ts ! i))) (fst (?ts ! i))"
    using r by (simp_all add: cell_of_def)
  have "last_over c (inventory_cleansed df) r = carry (map ?upd ?ts) (key r) (date r)"
    by (simp only: last_over_carry cell_of_inventory_cleansed [OF assms(1)])
  also have "\<dots> = carry ?ts (fst (snd (?ts ! i))) (fst (?ts ! i))"
    unfolding kd using t by (rule carry_idem)
  finally show ?thesis using val by simp
qed

lemma inventory_cleansed_idem:
  "inventory_cleansed (inventory_cleansed df) = inventory_cleansed df"
proof -
  let ?C = "inventory_cleansed df"
  have 1: "forward_fill Shelf_capacity ?C = ?C"
    by (rule forward_fill_fixpoint) (simp add: last_over_cleansed STATE_def)
  have 2: "forward_fill On_hand_inventory_units ?C = ?C"
    by (rule forward_fill_fixpoint) (simp add: last_over_cleansed STATE_def)
  have 3: "fillna 0 FLOW ?C = ?C"
    by (rule fillna_fixpoint) (auto simp: inventory_cleansed_def dest: flow_nonnull_impute)
  show ?thesis
    by (subst (1) inventory_cleansed_unfold) (simp only: 1 2 3)
qed

section \<open>The grid and the left outer join\<close>


lemma crossJoin_product: "crossJoin ds ks = List.product ds ks"
  by (induction ds) (simp_all add: crossJoin_def)




lemma set_crossJoin [simp]: "set (crossJoin ds ks) = set ds \<times> set ks"
  by (simp add: crossJoin_product)

lemma length_crossJoin [simp]: "length (crossJoin ds ks) = length ds * length ks"
  by (simp add: crossJoin_product)







lemma category_store_skus:
  assumes "k \<in> set (store_skus p obs)"
  shows "product_category k
           = product_category (last (filter (\<lambda>r. key r = key k) (placement p obs)))"
  using assms by (auto simp: store_skus_def key_def)







lemma join_rows_ident:
  "r \<in> set (join_rows p g obs) \<Longrightarrow>
     ident r = (Some (fst g), store_id (snd g), sku (snd g), product_category (snd g))"
  by (auto simp: join_rows_def joined_def ident_def split: list.splits)











lemma grid_rows:
  assumes "r \<in> set (join_leftouter p (crossJoin ds ks) obs)"
  shows "\<exists>d\<in>set ds. \<exists>k\<in>set ks. ident r = (Some d, store_id k, sku k, product_category k)"
proof -
  from assms obtain g where g: "g \<in> set (crossJoin ds ks)" "r \<in> set (join_rows p g obs)"
    by (auto simp: join_leftouter_def)
  from join_rows_ident [OF g(2)] g(1) show ?thesis by (cases g) auto
qed


section \<open>Raw rows in the grid\<close>





section \<open>Two raw rows for one day, store and SKU\<close>

text \<open>
  Claim C2 at the table \<open>twice\<close>. Its two rows have the same day, store and SKU. The
  date range has one day and there is one store-SKU pair, so the grid has one entry;
  the left outer join gives a row for each of the two matching raw rows, and the
  result has two rows for that day and pair, under either plan.
\<close>

theorem dense_grid_duplicates:
  "length (projr (pipeline as_met twice)) = 2
   \<and> length (projr (pipeline reversed twice)) = 2
   \<and> dates twice = Inr [1]
   \<and> map key (store_skus as_met twice) = [(Some 1, Some 100)]
   \<and> length (filter (\<lambda>r. date r = Some 1 \<and> key r = (Some 1, Some 100)) (projr (pipeline as_met twice))) = 2"
proof -
  have a: "length (projr (pipeline as_met twice)) = 2" by code_simp
  have b: "length (projr (pipeline reversed twice)) = 2" by code_simp
  have c: "dates twice = Inr [1]" by code_simp
  have d: "map key (store_skus as_met twice) = [(Some 1, Some 100)]" by code_simp
  have e: "length (filter (\<lambda>r. date r = Some 1 \<and> key r = (Some 1, Some 100)) (projr (pipeline as_met twice))) = 2"
    by code_simp
  from a b c d e show ?thesis by blast
qed

section \<open>The category of a store-SKU pair\<close>

text \<open>
  Claim C7 at the table \<open>late_first\<close>. Its one store-SKU pair has a row of day 2 with
  category dairy and a row of day 1 with category snacks. The category attached to the
  pair, and carried by both rows of the result, is the category of the row that the
  aggregate meets last: snacks when the rows are met in table order, dairy when they
  are met in the opposite order. The dates of the rows play no part.
\<close>

theorem category_follows_placement:
  "map product_category (projr (pipeline as_met late_first)) = [Some ''snacks'', Some ''snacks'']
   \<and> map product_category (projr (pipeline reversed late_first)) = [Some ''dairy'', Some ''dairy'']
   \<and> map key (projr (pipeline as_met late_first)) = [key (late_first ! 0), key (late_first ! 0)]
   \<and> key (late_first ! 1) = key (late_first ! 0)
   \<and> date (late_first ! 1) < date (late_first ! 0)
   \<and> product_category (late_first ! 0) = Some ''dairy''"
proof -
  have a: "map product_category (projr (pipeline as_met late_first)) = [Some ''snacks'', Some ''snacks'']"
    by code_simp
  have b: "map product_category (projr (pipeline reversed late_first)) = [Some ''dairy'', Some ''dairy'']"
    by code_simp
  have c: "map key (projr (pipeline as_met late_first)) = [key (late_first ! 0), key (late_first ! 0)]"
    by code_simp
  have d: "key (late_first ! 1) = key (late_first ! 0)" "date (late_first ! 1) < date (late_first ! 0)"
    "product_category (late_first ! 0) = Some ''dairy''"
    by (simp_all add: late_first_def key_def)
  from a b c d show ?thesis by blast
qed

section \<open>Imputation row by row\<close>

lemma ident_forward_fill [simp]: "map ident (forward_fill c df) = map ident df"
  by (simp add: forward_fill_def ident_def)

lemma ident_fold_forward_fill [simp]: "map ident (fold forward_fill cs df) = map ident df"
  by (induction cs arbitrary: df) simp_all

lemma ident_fillna [simp]: "map ident (fillna v cols df) = map ident df"
  by (simp add: fillna_def ident_def)

lemma ident_impute [simp]: "map ident (impute st fl df) = map ident df"
  by (simp add: impute_def)




lemma key_cleanse_row [simp]: "key (cleanse_row df q) = key q"
  by (simp add: cleanse_row_def key_def)

lemma date_cleanse_row [simp]: "date (cleanse_row df q) = date q"
  by (simp add: cleanse_row_def)





section \<open>Tables with the same rows\<close>




section \<open>Reading the result as a raw table\<close>















section \<open>The second run\<close>















section \<open>Running the notebook on its own result\<close>



end
